theory Spec2Isabelle
  imports Main "HOL-Library.Word"
begin

section \<open>Memory model\<close>

text \<open>
  The codec of \<^verbatim>\<open>src/cobs.c\<close> works on caller-owned byte arrays through raw
  pointers. A pointer argument is modelled as \<open>u8 list option\<close>: \<open>None\<close> is
  \<^verbatim>\<open>NULL\<close>, \<open>Some xs\<close> points to the first byte of an array holding exactly
  the bytes \<open>xs\<close> (its capacity is \<open>length xs\<close>). The pointers \<^verbatim>\<open>encode\<close>,
  \<^verbatim>\<open>codep\<close>, \<^verbatim>\<open>byte\<close> and \<^verbatim>\<open>decode\<close> that walk an array are offsets
  into it. C leaves an access outside the array undefined; here it is the value
  \<open>Inl OutOfBounds\<close>, so that every claim about buffer sizes is a claim about
  which runs end in \<open>Inr\<close>. The input array is \<^verbatim>\<open>const\<close> and is a value of its
  own: input and output do not overlap.

  Offsets and counts inside an array (\<^verbatim>\<open>size_t\<close> in the source) are natural
  numbers: they are bounded by the arrays, the loop counter only counts down to
  zero, and no arithmetic on them can wrap. The one \<^verbatim>\<open>size_t\<close> computation that
  can wrap is the sum in \<^verbatim>\<open>maxCobsEncodedLength\<close>; there the wrap-around is
  written out for a 64-bit \<^verbatim>\<open>size_t\<close>.
\<close>

type_synonym u8 = "8 word"

datatype fault = OutOfBounds

definition load :: "u8 list \<Rightarrow> nat \<Rightarrow> fault + u8" where
  "load m i = (if i < length m then Inr (m ! i) else Inl OutOfBounds)"

definition store :: "u8 list \<Rightarrow> nat \<Rightarrow> u8 \<Rightarrow> fault + u8 list" where
  "store m i v = (if i < length m then Inr (m[i := v]) else Inl OutOfBounds)"

section \<open>The encoder\<close>

text \<open>
  The local variables of \<^verbatim>\<open>cobsEncode\<close> that live across loop iterations,
  together with the output array they point into.
\<close>

record enc_state =
  buffer :: "u8 list"
  encode :: nat
  codep :: nat
  code :: u8

text \<open>
  One iteration of the \<^verbatim>\<open>for\<close> loop, for the input byte \<open>b = *byte\<close>. The
  parameter \<open>len\<close> is the value of \<^verbatim>\<open>length\<close> inside the body, that is after
  the post-decrement of the loop condition: the number of input bytes that follow
  \<open>b\<close>.
  \<^verbatim>\<open>
    if (*byte) *encode++ = *byte, ++code;
    if (!*byte || code == 0xff) {
        *codep = code, code = 1, codep = encode;
        if (!*byte || length) ++encode;
    }
  \<close>
\<close>

definition encode_body :: "u8 \<Rightarrow> nat \<Rightarrow> enc_state \<Rightarrow> fault + enc_state" where
  "encode_body b len s =
     (case (if b \<noteq> 0
            then (case store (buffer s) (encode s) b of
                    Inl f \<Rightarrow> Inl f
                  | Inr m \<Rightarrow> Inr (s\<lparr>buffer := m, encode := encode s + 1, code := code s + 1\<rparr>))
            else Inr s) of
        Inl f \<Rightarrow> Inl f
      | Inr s1 \<Rightarrow>
          if b = 0 \<or> code s1 = 0xff
          then (case store (buffer s1) (codep s1) (code s1) of
                  Inl f \<Rightarrow> Inl f
                | Inr m \<Rightarrow>
                    Inr (s1\<lparr>buffer := m, code := 1, codep := encode s1,
                            encode := (if b = 0 \<or> len \<noteq> 0 then encode s1 + 1 else encode s1)\<rparr>))
          else Inr s1)"

text \<open>
  The loop \<^verbatim>\<open>for (byte = data; length--; ++byte)\<close>: \<open>i\<close> is the offset of
  \<^verbatim>\<open>byte\<close> in the input, the third argument is \<^verbatim>\<open>length\<close> before the test.
\<close>

fun encode_loop :: "u8 list \<Rightarrow> nat \<Rightarrow> nat \<Rightarrow> enc_state \<Rightarrow> fault + enc_state" where
  "encode_loop data i 0 s = Inr s"
| "encode_loop data i (Suc len) s =
     (case load data i of
        Inl f \<Rightarrow> Inl f
      | Inr b \<Rightarrow>
          (case encode_body b len s of
             Inl f \<Rightarrow> Inl f
           | Inr s' \<Rightarrow> encode_loop data (Suc i) len s'))"

text \<open>
  \<^verbatim>\<open>cobsEncode(data, length, buffer)\<close>. The result is the returned count and
  the output array after the call (the unchanged argument on the null path).
\<close>

definition cobsEncode ::
  "u8 list option \<Rightarrow> nat \<Rightarrow> u8 list option \<Rightarrow> fault + nat \<times> u8 list option" where
  "cobsEncode data len buf =
     (if data = None \<or> buf = None then Inr (0, buf)
      else (case encode_loop (the data) 0 len
                   \<lparr>buffer = the buf, encode = 1, codep = 0, code = 1\<rparr> of
              Inl f \<Rightarrow> Inl f
            | Inr s \<Rightarrow>
                (case store (buffer s) (codep s) (code s) of
                   Inl f \<Rightarrow> Inl f
                 | Inr m \<Rightarrow> Inr (encode s, Some m))))"

section \<open>The decoder\<close>

text \<open>
  The variables of \<^verbatim>\<open>cobsDecode\<close>: \<open>dbuffer\<close> is the output array
  (\<^verbatim>\<open>buffer\<close>), \<open>dcode\<close> the loop variable \<^verbatim>\<open>code\<close>; \<open>byte\<close> and
  \<open>decode\<close> are offsets into the input and the output.
\<close>

record dec_state =
  dbuffer :: "u8 list"
  byte :: nat
  decode :: nat
  dcode :: u8
  block :: u8

text \<open>
  The loop body. The result carries a flag that is \<open>True\<close> when the body left
  the loop through \<^verbatim>\<open>break\<close>.
  \<^verbatim>\<open>
    if (block) *decode++ = *byte++;
    else {
        if (code != 0xff) *decode++ = 0;
        block = code = *byte++;
        if (code == 0x00) break;
    }
  \<close>
\<close>

definition decode_body :: "u8 list \<Rightarrow> dec_state \<Rightarrow> fault + bool \<times> dec_state" where
  "decode_body data s =
     (if block s \<noteq> 0
      then (case load data (byte s) of
              Inl f \<Rightarrow> Inl f
            | Inr v \<Rightarrow>
                (case store (dbuffer s) (decode s) v of
                   Inl f \<Rightarrow> Inl f
                 | Inr m \<Rightarrow>
                     Inr (False, s\<lparr>dbuffer := m, decode := decode s + 1, byte := byte s + 1\<rparr>)))
      else (case (if dcode s \<noteq> 0xff
                  then (case store (dbuffer s) (decode s) 0 of
                          Inl f \<Rightarrow> Inl f
                        | Inr m \<Rightarrow> Inr (s\<lparr>dbuffer := m, decode := decode s + 1\<rparr>))
                  else Inr s) of
              Inl f \<Rightarrow> Inl f
            | Inr s1 \<Rightarrow>
                (case load data (byte s1) of
                   Inl f \<Rightarrow> Inl f
                 | Inr v \<Rightarrow> Inr (v = 0, s1\<lparr>block := v, dcode := v, byte := byte s1 + 1\<rparr>))))"

text \<open>
  \<^verbatim>\<open>for (code = 0xff, block = 0; byte < data + length; --block) body\<close>: the
  decrement of \<^verbatim>\<open>block\<close> runs after every iteration that did not break.
\<close>

function decode_loop :: "u8 list \<Rightarrow> nat \<Rightarrow> dec_state \<Rightarrow> fault + dec_state" where
  "decode_loop data len s =
     (if byte s < len
      then (case decode_body data s of
              Inl f \<Rightarrow> Inl f
            | Inr (brk, s') \<Rightarrow>
                if brk then Inr s'
                else decode_loop data len (s'\<lparr>block := block s' - 1\<rparr>))
      else Inr s)"
  by pat_completeness auto
termination
  by (relation "measure (\<lambda>(data, len, s). len - byte s)")
     (auto simp: decode_body_def load_def store_def split: if_splits sum.splits)

declare decode_loop.simps [simp del]

definition cobsDecode ::
  "u8 list option \<Rightarrow> nat \<Rightarrow> u8 list option \<Rightarrow> fault + nat \<times> u8 list option" where
  "cobsDecode data len buf =
     (if data = None \<or> buf = None then Inr (0, buf)
      else (case decode_loop (the data) len
                   \<lparr>dbuffer = the buf, byte = 0, decode = 0, dcode = 0xff, block = 0\<rparr> of
              Inl f \<Rightarrow> Inl f
            | Inr s \<Rightarrow> Inr (decode s, Some (dbuffer s))))"

section \<open>The bound\<close>

text \<open>
  \<^verbatim>\<open>return data_length + data_length / 254 + 1;\<close> on an unsigned 64-bit
  \<^verbatim>\<open>size_t\<close>: the sum wraps modulo \<open>2 ^ 64\<close>.
\<close>

definition maxCobsEncodedLength :: "nat \<Rightarrow> nat" where
  "maxCobsEncodedLength data_length = (data_length + data_length div 254 + 1) mod 2 ^ 64"

section \<open>Invariants of the encoder loop\<close>

text \<open>
  The definitions of this section are not part of the program: they state what
  holds of the encoder's variables between two iterations, and the proofs below
  carry them through the loop.

  While a block is open, \<open>codep\<close> is its reserved code slot, \<open>encode\<close> is the
  next free position and \<open>code\<close> is one more than the number of literals
  written since the slot, at most 254.
\<close>

definition enc_ok :: "enc_state \<Rightarrow> bool" where
  "enc_ok s = (codep s < encode s \<and> encode s = codep s + unat (code s) \<and> unat (code s) \<le> 254)"

text \<open>
  With \<open>n\<close> input bytes still to come: a block is open, or the input has ended
  on a block closed at code \<open>0xFF\<close>, for which no new slot was reserved.
\<close>

definition enc_inv :: "nat \<Rightarrow> enc_state \<Rightarrow> bool" where
  "enc_inv n s = (enc_ok s \<or> (n = 0 \<and> codep s = encode s \<and> code s = 1))"

text \<open>
  Two potentials, for \<open>n\<close> input bytes still to come: the largest value
  \<open>encode\<close> can still reach (the returned count), and a strict bound on the
  indices that can still be written, the final write to \<open>codep\<close> included.
\<close>

definition enc_count_bound :: "enc_state \<Rightarrow> nat \<Rightarrow> nat" where
  "enc_count_bound s n =
     (if n = 0 then encode s else encode s + n + (unat (code s) + n - 2) div 254)"

definition enc_write_bound :: "enc_state \<Rightarrow> nat \<Rightarrow> nat" where
  "enc_write_bound s n = encode s + n + (unat (code s) - 1 + n) div 254"

text \<open>
  Every position below \<open>encode\<close> other than the open code slot lies inside the
  array and holds a non-zero byte.
\<close>

definition enc_nz :: "enc_state \<Rightarrow> bool" where
  "enc_nz s =
     (\<forall>j < encode s. j \<noteq> codep s \<longrightarrow> j < length (buffer s) \<and> buffer s ! j \<noteq> 0)"

text \<open>
  The bytes the decoder loop emits on the input \<open>xs\<close> when it starts with
  \<^verbatim>\<open>code\<close> \<open>= c\<close> and \<^verbatim>\<open>block\<close> \<open>= k\<close>, as a function on lists; lemma
  \<open>decode_loop_decoded\<close> below proves that \<open>decode_loop\<close> writes exactly these
  bytes.
\<close>

fun decoded :: "u8 \<Rightarrow> u8 \<Rightarrow> u8 list \<Rightarrow> u8 list" where
  "decoded c k [] = []"
| "decoded c k (x # xs) =
     (if k \<noteq> 0 then x # decoded c (k - 1) xs
      else (if c \<noteq> 0xff then [0] else []) @ (if x = 0 then [] else decoded x (x - 1) xs))"

text \<open>
  The input consumed so far is \<open>xs\<close>: the closed blocks below \<open>codep\<close> decode
  to \<open>ys\<close> and leave the decoder at a block boundary with code \<open>cl\<close>, and
  \<open>xs\<close> is \<open>ys\<close>, the zero that \<open>cl\<close> implies, and the literals of the open
  block.
\<close>

definition enc_rel :: "u8 list \<Rightarrow> enc_state \<Rightarrow> bool" where
  "enc_rel xs s =
     (\<exists>ys cl.
        (\<forall>rest. decoded 0xff 0 (take (codep s) (buffer s) @ rest) = ys @ decoded cl 0 rest) \<and>
        xs = ys @ (if cl \<noteq> 0xff then [0] else [])
                @ drop (Suc (codep s)) (take (encode s) (buffer s)) \<and>
        (codep s = encode s \<longrightarrow> cl = 0xff))"

text \<open>
  The length of the run of non-zero bytes that ends \<open>xs\<close>. The last block of
  the encoding of \<open>xs\<close> is a maximal block (254 literals, code \<open>0xFF\<close>) ending
  the input on a non-zero byte exactly when this run is a positive multiple of
  254.
\<close>

definition nz_run :: "u8 list \<Rightarrow> nat" where
  "nz_run xs = length (takeWhile (\<lambda>x. x \<noteq> 0) (rev xs))"

text \<open>How \<open>code\<close> and the shape of the state follow that run.\<close>

definition enc_run :: "nat \<Rightarrow> u8 list \<Rightarrow> enc_state \<Rightarrow> bool" where
  "enc_run n xs s =
     (if codep s < encode s
      then unat (code s) - 1 = nz_run xs mod 254 \<and>
           (n = 0 \<longrightarrow> nz_run xs = 0 \<or> nz_run xs mod 254 \<noteq> 0)
      else 0 < nz_run xs \<and> nz_run xs mod 254 = 0)"

text \<open>
  The loop invariant: after \<open>j\<close> bytes of \<open>data\<close>, with \<open>n\<close> to come, on an
  output array that was \<open>buf\<close> at the start; \<open>N\<close> bounds the count and \<open>W\<close>
  the written indices.
\<close>

definition enc_loop_inv ::
  "u8 list \<Rightarrow> u8 list \<Rightarrow> nat \<Rightarrow> nat \<Rightarrow> nat \<Rightarrow> nat \<Rightarrow> enc_state \<Rightarrow> bool" where
  "enc_loop_inv data buf N W j n s =
     (j \<le> length data \<and> enc_inv n s \<and> enc_nz s \<and> enc_rel (take j data) s \<and>
      enc_run n (take j data) s \<and>
      length (buffer s) = length buf \<and> (\<forall>i \<ge> encode s. buffer s ! i = buf ! i) \<and>
      1 \<le> encode s \<and> enc_count_bound s n \<le> N \<and>
      (if codep s < encode s then enc_write_bound s n \<le> W else encode s < W))"

section \<open>One iteration of the encoder\<close>

lemma u8_unat_succ: "unat (c :: u8) \<le> 254 \<Longrightarrow> unat (c + 1) = Suc (unat c)"
  by (simp add: unat_word_ariths)

lemma u8_succ_full: "unat (c :: u8) \<le> 254 \<Longrightarrow> (c + 1 = 0xff) = (unat c = 254)"
  by (simp add: word_unat_eq_iff u8_unat_succ)

lemma encode_body_zero:
  "encode_body 0 n s =
     (if codep s < length (buffer s)
      then Inr \<lparr>buffer = (buffer s)[codep s := code s], encode = encode s + 1,
                codep = encode s, code = 1\<rparr>
      else Inl OutOfBounds)"
  by (simp add: encode_body_def store_def)

lemma encode_body_literal:
  "b \<noteq> 0 \<Longrightarrow> code s + 1 \<noteq> 0xff \<Longrightarrow>
   encode_body b n s =
     (if encode s < length (buffer s)
      then Inr \<lparr>buffer = (buffer s)[encode s := b], encode = encode s + 1,
                codep = codep s, code = code s + 1\<rparr>
      else Inl OutOfBounds)"
  by (simp add: encode_body_def store_def)

lemma encode_body_full:
  "b \<noteq> 0 \<Longrightarrow> code s + 1 = 0xff \<Longrightarrow>
   encode_body b n s =
     (if encode s < length (buffer s) \<and> codep s < length (buffer s)
      then Inr \<lparr>buffer = (buffer s)[encode s := b, codep s := 0xff],
                encode = (if n \<noteq> 0 then encode s + 2 else encode s + 1),
                codep = encode s + 1, code = 1\<rparr>
      else Inl OutOfBounds)"
  by (simp add: encode_body_def store_def)

lemma encode_body_cases:
  assumes "encode_body b n s = Inr s'" and "enc_ok s"
  obtains
    (zero) "b = 0" "codep s < length (buffer s)"
      "s' = \<lparr>buffer = (buffer s)[codep s := code s], encode = encode s + 1,
              codep = encode s, code = 1\<rparr>"
  | (literal) "b \<noteq> 0" "unat (code s) < 254" "encode s < length (buffer s)"
      "s' = \<lparr>buffer = (buffer s)[encode s := b], encode = encode s + 1,
              codep = codep s, code = code s + 1\<rparr>"
  | (full) "b \<noteq> 0" "unat (code s) = 254" "encode s < length (buffer s)"
      "s' = \<lparr>buffer = (buffer s)[encode s := b, codep s := 0xff],
              encode = (if n \<noteq> 0 then encode s + 2 else encode s + 1),
              codep = encode s + 1, code = 1\<rparr>"
proof -
  have c: "unat (code s) \<le> 254" using assms(2) by (simp add: enc_ok_def)
  show thesis
  proof (cases "b = 0")
    case True
    with assms(1) show thesis
      by (intro zero) (auto simp: encode_body_zero split: if_splits)
  next
    case nz: False
    show thesis
    proof (cases "unat (code s) = 254")
      case True
      then have "code s + 1 = 0xff" using c by (simp add: u8_succ_full)
      with nz assms(1) True show thesis
        by (intro full) (auto simp: encode_body_full split: if_splits)
    next
      case False
      then have "code s + 1 \<noteq> 0xff" using c by (simp add: u8_succ_full)
      with nz assms(1) False c show thesis
        by (intro literal) (auto simp: encode_body_literal split: if_splits)
    qed
  qed
qed

lemma encode_loop_invariant:
  assumes run: "encode_loop data i n s = Inr s'"
    and init: "I i n s"
    and step: "\<And>j k t t'. I j (Suc k) t \<Longrightarrow> j < length data \<Longrightarrow>
                 encode_body (data ! j) k t = Inr t' \<Longrightarrow> I (Suc j) k t'"
  shows "I (i + n) 0 s'"
  using run init
proof (induction n arbitrary: i s)
  case 0
  then show ?case by simp
next
  case (Suc n)
  from Suc.prems(1) obtain t where lt: "i < length data"
    and b: "encode_body (data ! i) n s = Inr t"
    and r: "encode_loop data (Suc i) n t = Inr s'"
    by (auto simp: load_def split: if_splits sum.splits)
  from step [OF Suc.prems(2) lt b] have "I (Suc i) n t" .
  from Suc.IH [OF r this] show ?case by simp
qed

lemma encode_body_shape:
  assumes "enc_ok s" and "encode_body b n s = Inr s'"
  shows "enc_inv n s'" and "length (buffer s') = length (buffer s)" and "1 \<le> encode s'"
  using assms(2,1)
  by (cases rule: encode_body_cases; simp add: enc_inv_def enc_ok_def u8_unat_succ)+

lemma encode_body_count:
  assumes "enc_ok s" and "encode_body b n s = Inr s'"
  shows "enc_count_bound s' n \<le> enc_count_bound s (Suc n)"
  using assms(2,1)
proof (cases rule: encode_body_cases)
  case zero
  then show ?thesis using assms(1) by (simp add: enc_ok_def enc_count_bound_def) arith
next
  case literal
  then show ?thesis using assms(1) by (simp add: enc_ok_def enc_count_bound_def u8_unat_succ)
next
  case full
  then show ?thesis using assms(1) by (simp add: enc_ok_def enc_count_bound_def) arith
qed

lemma encode_body_count_eq:
  assumes "enc_ok s" and "encode_body b n s = Inr s'" and "b \<noteq> 0"
  shows "enc_count_bound s' n = enc_count_bound s (Suc n)"
  using assms(2,1)
proof (cases rule: encode_body_cases)
  case zero
  then show ?thesis using assms(3) by simp
next
  case literal
  then show ?thesis using assms(1) by (simp add: enc_ok_def enc_count_bound_def u8_unat_succ)
next
  case full
  then show ?thesis using assms(1) by (simp add: enc_ok_def enc_count_bound_def) arith
qed

lemma encode_body_total:
  assumes "enc_ok s" and "enc_write_bound s (Suc n) \<le> length (buffer s)"
  shows "\<exists>s'. encode_body b n s = Inr s' \<and>
           (if enc_ok s' then enc_write_bound s' n \<le> length (buffer s')
            else encode s' < length (buffer s'))"
proof -
  have c: "unat (code s) \<le> 254" and p: "codep s < encode s"
    and e: "encode s < length (buffer s)"
    using assms by (simp_all add: enc_ok_def enc_write_bound_def)
  show ?thesis
  proof (cases "b = 0")
    case True
    then show ?thesis using assms p e
      by (simp add: encode_body_zero enc_ok_def enc_write_bound_def)
  next
    case nz: False
    show ?thesis
    proof (cases "unat (code s) = 254")
      case True
      then have "code s + 1 = 0xff" using c by (simp add: u8_succ_full)
      then show ?thesis using nz True assms p e
        by (simp add: encode_body_full enc_ok_def enc_write_bound_def) arith
    next
      case False
      then have "code s + 1 \<noteq> 0xff" using c by (simp add: u8_succ_full)
      then show ?thesis using nz False assms p e c
        by (simp add: encode_body_literal enc_ok_def enc_write_bound_def u8_unat_succ)
    qed
  qed
qed

lemma encode_loop_total:
  assumes "enc_ok s" and "i + n \<le> length data"
    and "enc_write_bound s n \<le> length (buffer s)"
  shows "\<exists>s'. encode_loop data i n s = Inr s' \<and> codep s' < length (buffer s')"
  using assms
proof (induction n arbitrary: i s)
  case 0
  then show ?case by (simp add: enc_ok_def enc_write_bound_def)
next
  case (Suc n)
  from encode_body_total [OF Suc.prems(1,3), of "data ! i"]
  obtain t where t: "encode_body (data ! i) n s = Inr t"
    and w: "if enc_ok t then enc_write_bound t n \<le> length (buffer t)
            else encode t < length (buffer t)"
    by blast
  have ld: "load data i = Inr (data ! i)" using Suc.prems(2) by (simp add: load_def)
  show ?case
  proof (cases "enc_ok t")
    case True
    with w Suc.IH [of t "Suc i"] Suc.prems(2) ld t show ?thesis by simp
  next
    case False
    with encode_body_shape(1) [OF Suc.prems(1) t] have "n = 0" "codep t = encode t"
      by (simp_all add: enc_inv_def)
    with w False ld t show ?thesis by simp
  qed
qed

lemma decoded_copy:
  "length ys = unat k \<Longrightarrow> decoded c k (ys @ rest) = ys @ decoded c 0 rest"
proof (induction ys arbitrary: k)
  case Nil
  then show ?case by (simp add: unat_eq_0)
next
  case (Cons y ys)
  then have k: "k \<noteq> 0" by auto
  then have "unat (k - 1) = unat k - 1" by (rule unat_minus_one)
  with Cons.prems have "length ys = unat (k - 1)" by simp
  with Cons.IH k show ?case by simp
qed

lemma decoded_block:
  "c \<noteq> 0 \<Longrightarrow> Suc (length ys) = unat c \<Longrightarrow>
   decoded cl 0 (c # ys @ rest) = (if cl \<noteq> 0xff then [0] else []) @ ys @ decoded c 0 rest"
  by (simp add: decoded_copy unat_minus_one)

lemma take_upd_split:
  "p < e \<Longrightarrow> p < length xs \<Longrightarrow> take e (xs[p := c]) = take p xs @ c # drop (Suc p) (take e xs)"
proof -
  assume pe: "p < e" and pl: "p < length xs"
  then obtain d where e: "e = Suc (p + d)" using less_imp_Suc_add by blast
  show ?thesis using pl
    by (simp add: e take_update_swap upd_conv_take_nth_drop min_def drop_take)
qed

lemma enc_nz_range:
  "enc_nz s \<Longrightarrow> codep s < length (buffer s) \<Longrightarrow> encode s \<le> length (buffer s)"
  unfolding enc_nz_def by (metis not_less order_less_irrefl)

lemma encode_body_nz:
  assumes "enc_ok s" and "enc_nz s" and "encode_body b n s = Inr s'"
  shows "enc_nz s'"
  using assms(3,1)
proof (cases rule: encode_body_cases)
  case zero
  have "code s \<noteq> 0" using assms(1) by (auto simp: enc_ok_def)
  with zero assms(1,2) show ?thesis
    by (auto simp: enc_nz_def enc_ok_def nth_list_update less_Suc_eq)
next
  case literal
  with assms(1,2) show ?thesis
    by (auto simp: enc_nz_def enc_ok_def nth_list_update less_Suc_eq)
next
  case full
  with assms(1,2) show ?thesis
    by (auto simp: enc_nz_def enc_ok_def nth_list_update less_Suc_eq split: if_splits)
qed

lemma encode_body_rel:
  assumes ok: "enc_ok s" and nz: "enc_nz s" and rel: "enc_rel xs s"
    and body: "encode_body b n s = Inr s'"
  shows "enc_rel (xs @ [b]) s'"
proof -
  define p e buf c where "p = codep s" and "e = encode s" and "buf = buffer s" and "c = code s"
  note defs = p_def e_def buf_def c_def
  define cur where "cur = drop (Suc p) (take e buf)"
  from rel obtain ys cl
    where G: "\<And>rest. decoded 0xff 0 (take p buf @ rest) = ys @ decoded cl 0 rest"
      and X: "xs = ys @ (if cl \<noteq> 0xff then [0] else []) @ cur"
    unfolding enc_rel_def defs cur_def by blast
  from ok have pe: "p < e" and ec: "e = p + unat c" and c254: "unat c \<le> 254"
    by (simp_all add: enc_ok_def defs)
  then have c0: "c \<noteq> 0" by auto
  from c254 have cff: "c \<noteq> 0xff" by auto
  from body ok show ?thesis
  proof (cases rule: encode_body_cases)
    case zero
    then have pl: "p < length buf" by (simp add: defs)
    with nz have el: "e \<le> length buf" using enc_nz_range [of s] by (simp add: defs)
    have lc: "Suc (length cur) = unat c" using pe ec el by (simp add: cur_def)
    have tk: "take e (buf[p := c]) = take p buf @ c # cur"
      using pe pl by (simp add: take_upd_split cur_def)
    have "\<And>rest. decoded 0xff 0 (take e (buf[p := c]) @ rest) = xs @ decoded c 0 rest"
      using G [of "c # cur @ _"] decoded_block [OF c0 lc] by (simp add: tk X)
    then show ?thesis
      unfolding enc_rel_def using zero(3) cff
      by (intro exI [of _ xs] exI [of _ c]) (simp add: defs zero(1))
  next
    case literal
    then have el: "e < length buf" by (simp add: defs)
    have cur': "drop (Suc p) (take (Suc e) (buf[e := b])) = cur @ [b]"
      using pe el by (simp add: take_Suc_conv_app_nth cur_def)
    have "take p (buf[e := b]) = take p buf" using pe by simp
    with G X cur' show ?thesis
      unfolding enc_rel_def using literal(4) pe
      by (intro exI [of _ ys] exI [of _ cl]) (simp add: defs)
  next
    case full
    then have el: "e < length buf" and c: "unat c = 254" by (simp_all add: defs)
    have pl: "p < length buf" using pe el by simp
    have cur': "drop (Suc p) (take (Suc e) (buf[e := b])) = cur @ [b]"
      using pe el by (simp add: take_Suc_conv_app_nth cur_def)
    have lc: "Suc (length (cur @ [b])) = unat (0xff :: u8)"
      using pe ec el c by (simp add: cur_def)
    have tk: "take (Suc e) (buf[e := b, p := 0xff]) = take p buf @ 0xff # (cur @ [b])"
      using pe pl cur' by (simp add: take_upd_split)
    have "\<And>rest. decoded 0xff 0 (take (Suc e) (buf[e := b, p := 0xff]) @ rest)
            = (xs @ [b]) @ decoded 0xff 0 rest"
      using G [of "0xff # (cur @ [b]) @ _"] decoded_block [OF _ lc, of cl] by (simp add: tk X)
    then show ?thesis
      unfolding enc_rel_def using full(4)
      by (intro exI [of _ "xs @ [b]"] exI [of _ "0xff"]) (simp add: defs min_def)
  qed
qed

lemma nz_run_snoc: "nz_run (xs @ [b]) = (if b = 0 then 0 else Suc (nz_run xs))"
  by (simp add: nz_run_def)

lemma encode_body_run:
  assumes ok: "enc_ok s" and run: "enc_run (Suc n) xs s" and body: "encode_body b n s = Inr s'"
  shows "enc_run n (xs @ [b]) s'"
proof -
  from ok run have r: "unat (code s) - 1 = nz_run xs mod 254" and c: "1 \<le> unat (code s)"
    by (simp_all add: enc_ok_def enc_run_def)
  from body ok show ?thesis
  proof (cases rule: encode_body_cases)
    case zero
    then show ?thesis by (simp add: enc_run_def nz_run_snoc)
  next
    case literal
    from r c literal(2) have "unat (code s) = Suc (nz_run xs mod 254)"
      and "nz_run xs mod 254 \<noteq> 253" by arith+
    with literal ok show ?thesis
      by (simp add: enc_run_def nz_run_snoc enc_ok_def u8_unat_succ mod_Suc)
  next
    case full
    from r c full(2) have "nz_run xs mod 254 = 253" by arith
    with full show ?thesis
      by (simp add: enc_run_def nz_run_snoc mod_Suc)
  qed
qed

lemma encode_body_frame:
  assumes ok: "enc_ok s" and fr: "\<forall>i \<ge> encode s. buffer s ! i = buf ! i"
    and body: "encode_body b n s = Inr s'"
  shows "\<forall>i \<ge> encode s'. buffer s' ! i = buf ! i"
  using body ok
  by (cases rule: encode_body_cases) (use ok fr in \<open>auto simp: enc_ok_def\<close>)

lemma encode_body_write:
  assumes ok: "enc_ok s" and w: "enc_write_bound s (Suc n) \<le> W"
    and body: "encode_body b n s = Inr s'"
  shows "if codep s' < encode s' then enc_write_bound s' n \<le> W else encode s' < W"
  using body ok
proof (cases rule: encode_body_cases)
  case zero
  with w ok show ?thesis by (simp add: enc_ok_def enc_write_bound_def)
next
  case literal
  with w ok show ?thesis by (simp add: enc_ok_def enc_write_bound_def u8_unat_succ)
next
  case full
  with w ok show ?thesis by (simp add: enc_ok_def enc_write_bound_def) arith
qed

lemma enc_loop_inv_step:
  assumes inv: "enc_loop_inv data buf N W j (Suc n) s" and j: "j < length data"
    and body: "encode_body (data ! j) n s = Inr s'"
  shows "enc_loop_inv data buf N W (Suc j) n s'"
proof -
  from inv have ok: "enc_ok s" by (simp add: enc_loop_inv_def enc_inv_def)
  have tk: "take (Suc j) data = take j data @ [data ! j]"
    using j by (simp add: take_Suc_conv_app_nth)
  from inv have nz: "enc_nz s" and rel: "enc_rel (take j data) s"
    and run: "enc_run (Suc n) (take j data) s"
    and len: "length (buffer s) = length buf"
    and fr: "\<forall>i \<ge> encode s. buffer s ! i = buf ! i"
    and cb: "enc_count_bound s (Suc n) \<le> N"
    by (simp_all add: enc_loop_inv_def)
  from inv ok have wb: "enc_write_bound s (Suc n) \<le> W"
    by (simp add: enc_loop_inv_def enc_ok_def)
  show ?thesis
    unfolding enc_loop_inv_def tk
    using j encode_body_shape [OF ok body] encode_body_nz [OF ok nz body]
      encode_body_rel [OF ok nz rel body] encode_body_run [OF ok run body]
      encode_body_frame [OF ok fr body] encode_body_count [OF ok body] len cb
      encode_body_write [OF ok wb body]
    by simp
qed

lemma enc_loop_inv_init:
  "enc_loop_inv data buf (if n = 0 then 1 else n + 1 + (n - 1) div 254) (n + n div 254 + 1) 0 n
     \<lparr>buffer = buf, encode = 1, codep = 0, code = 1\<rparr>"
  unfolding enc_loop_inv_def
  by (auto simp: enc_inv_def enc_ok_def enc_nz_def enc_rel_def enc_run_def nz_run_def
      enc_count_bound_def enc_write_bound_def
      intro: exI [of _ "[]"] exI [of _ "0xff"])

lemma encode_loop_sound:
  assumes "encode_loop data 0 n \<lparr>buffer = buf, encode = 1, codep = 0, code = 1\<rparr> = Inr s"
  shows "enc_loop_inv data buf (if n = 0 then 1 else n + 1 + (n - 1) div 254)
           (n + n div 254 + 1) n 0 s"
  using encode_loop_invariant [OF assms, where I = "enc_loop_inv data buf
      (if n = 0 then 1 else n + 1 + (n - 1) div 254) (n + n div 254 + 1)",
      OF enc_loop_inv_init enc_loop_inv_step]
  by simp

section \<open>The encoder as a whole\<close>

lemma cobsEncode_Inr:
  assumes "cobsEncode (Some d) n (Some buf) = Inr (cnt, r)"
  obtains s where
    "encode_loop d 0 n \<lparr>buffer = buf, encode = 1, codep = 0, code = 1\<rparr> = Inr s"
    "codep s < length (buffer s)" "cnt = encode s"
    "r = Some ((buffer s)[codep s := code s])"
    "enc_loop_inv d buf (if n = 0 then 1 else n + 1 + (n - 1) div 254) (n + n div 254 + 1) n 0 s"
  using assms encode_loop_sound [of d n buf]
  by (auto simp: cobsEncode_def store_def split: sum.splits if_splits)

lemma enc_final_cases:
  assumes "enc_loop_inv d buf N W j 0 s"
  obtains (open_block) "enc_ok s" "codep s < encode s"
  | (closed_block) "codep s = encode s" "code s = 1" "\<not> codep s < encode s"
  using assms by (auto simp: enc_loop_inv_def enc_inv_def enc_ok_def)

lemma cobsEncode_no_zero:
  assumes "cobsEncode (Some d) n (Some buf) = Inr (cnt, Some enc)" and "j < cnt"
  shows "enc ! j \<noteq> 0"
proof -
  from assms(1) obtain s where s: "codep s < length (buffer s)" "cnt = encode s"
    "enc = (buffer s)[codep s := code s]"
    and inv: "enc_loop_inv d buf (if n = 0 then 1 else n + 1 + (n - 1) div 254)
                (n + n div 254 + 1) n 0 s"
    by (auto elim: cobsEncode_Inr)
  from inv have nz: "enc_nz s" by (simp add: enc_loop_inv_def)
  from inv have "code s \<noteq> 0"
    by (cases rule: enc_final_cases) (auto simp: enc_ok_def)
  with nz s assms(2) show ?thesis
    by (auto simp: enc_nz_def nth_list_update)
qed

lemma cobsEncode_count:
  assumes "cobsEncode (Some d) n (Some buf) = Inr (cnt, r)"
  shows "1 \<le> cnt" and "cnt \<le> length buf" and "n \<le> length d"
    and "cnt \<le> (if n = 0 then 1 else n + 1 + (n - 1) div 254)"
    and "\<exists>enc. r = Some enc \<and> length enc = length buf"
proof -
  from assms(1) obtain s where s: "codep s < length (buffer s)" "cnt = encode s"
    "r = Some ((buffer s)[codep s := code s])"
    and inv: "enc_loop_inv d buf (if n = 0 then 1 else n + 1 + (n - 1) div 254)
                (n + n div 254 + 1) n 0 s"
    by (auto elim: cobsEncode_Inr)
  from inv s show "1 \<le> cnt" and "n \<le> length d"
    and "\<exists>enc. r = Some enc \<and> length enc = length buf"
    by (simp_all add: enc_loop_inv_def)
  from inv s show "cnt \<le> (if n = 0 then 1 else n + 1 + (n - 1) div 254)"
    by (simp add: enc_loop_inv_def enc_count_bound_def)
  from inv have len: "length (buffer s) = length buf" and nz: "enc_nz s"
    by (simp_all add: enc_loop_inv_def)
  from inv show "cnt \<le> length buf"
    using s len enc_nz_range [OF nz s(1)] by (cases rule: enc_final_cases) simp_all
qed

lemma cobsEncode_decoded:
  assumes "cobsEncode (Some d) n (Some buf) = Inr (cnt, Some enc)"
  shows "decoded 0xff 0 (take cnt enc) = take n d"
proof -
  from assms(1) obtain s where s: "codep s < length (buffer s)" "cnt = encode s"
    "enc = (buffer s)[codep s := code s]"
    and inv: "enc_loop_inv d buf (if n = 0 then 1 else n + 1 + (n - 1) div 254)
                (n + n div 254 + 1) n 0 s"
    by (auto elim: cobsEncode_Inr)
  from inv have nz: "enc_nz s" and rel: "enc_rel (take n d) s"
    by (simp_all add: enc_loop_inv_def)
  define cur where "cur = drop (Suc (codep s)) (take (encode s) (buffer s))"
  from rel obtain ys cl
    where G: "\<And>rest. decoded 0xff 0 (take (codep s) (buffer s) @ rest) = ys @ decoded cl 0 rest"
      and X: "take n d = ys @ (if cl \<noteq> 0xff then [0] else []) @ cur"
      and E: "codep s = encode s \<longrightarrow> cl = 0xff"
    unfolding enc_rel_def cur_def by blast
  from inv show ?thesis
  proof (cases rule: enc_final_cases)
    case open_block
    then have c0: "code s \<noteq> 0" by (auto simp: enc_ok_def)
    have el: "encode s \<le> length (buffer s)" using enc_nz_range [OF nz s(1)] .
    have lc: "Suc (length cur) = unat (code s)"
      using open_block el by (simp add: cur_def enc_ok_def)
    have "take cnt enc = take (codep s) (buffer s) @ code s # cur"
      using open_block(2) s by (simp add: take_upd_split cur_def)
    then show ?thesis
      using G [of "code s # cur"] decoded_block [OF c0 lc, of cl "[]"] X by simp
  next
    case closed_block
    with s have "take cnt enc = take (codep s) (buffer s)" by simp
    then show ?thesis using G [of "[]"] X E closed_block by (simp add: cur_def)
  qed
qed

lemma encode_loop_final:
  assumes inv: "enc_loop_inv d buf N W n 0 s"
  shows "if 0 < nz_run (take n d) \<and> nz_run (take n d) mod 254 = 0
         then codep s = encode s \<and> code s = 1 \<and> encode s < W
         else codep s < encode s \<and> encode s \<le> W"
proof -
  from inv have run: "enc_run 0 (take n d) s"
    and w: "if codep s < encode s then enc_write_bound s 0 \<le> W else encode s < W"
    by (simp_all add: enc_loop_inv_def)
  from inv show ?thesis
  proof (cases rule: enc_final_cases)
    case open_block
    with run have "\<not> (0 < nz_run (take n d) \<and> nz_run (take n d) mod 254 = 0)"
      by (auto simp: enc_run_def)
    with open_block w show ?thesis by (auto simp: enc_write_bound_def)
  next
    case closed_block
    with run have "0 < nz_run (take n d) \<and> nz_run (take n d) mod 254 = 0"
      by (simp add: enc_run_def)
    with closed_block w show ?thesis by auto
  qed
qed

lemma encode_loop_count_nonzero:
  assumes run: "encode_loop data i n s = Inr s'" and ok: "enc_ok s"
    and nz: "0 \<notin> set data"
  shows "encode s' = enc_count_bound s n"
proof -
  have "enc_inv 0 s' \<and> enc_count_bound s' 0 = enc_count_bound s n"
  proof (rule encode_loop_invariant
      [OF run, where I = "\<lambda>j k t. enc_inv k t \<and> enc_count_bound t k = enc_count_bound s n"])
    show "enc_inv n s \<and> enc_count_bound s n = enc_count_bound s n"
      using ok by (simp add: enc_inv_def)
  next
    fix j k t t'
    assume I: "enc_inv (Suc k) t \<and> enc_count_bound t (Suc k) = enc_count_bound s n"
      and j: "j < length data" and body: "encode_body (data ! j) k t = Inr t'"
    from I have t: "enc_ok t" by (simp add: enc_inv_def)
    from j nz have "data ! j \<noteq> 0" by (metis nth_mem)
    from encode_body_count_eq [OF t body this] encode_body_shape(1) [OF t body] I
    show "enc_inv k t' \<and> enc_count_bound t' k = enc_count_bound s n" by simp
  qed
  then show ?thesis by (simp add: enc_count_bound_def)
qed

lemma cobsEncode_total:
  assumes "n \<le> length d" and "n + n div 254 + 1 \<le> length buf"
  shows "\<exists>cnt enc. cobsEncode (Some d) n (Some buf) = Inr (cnt, Some enc)"
proof -
  have "\<exists>s'. encode_loop d 0 n \<lparr>buffer = buf, encode = 1, codep = 0, code = 1\<rparr> = Inr s' \<and>
          codep s' < length (buffer s')"
    using assms by (intro encode_loop_total) (simp_all add: enc_ok_def enc_write_bound_def)
  then show ?thesis by (auto simp: cobsEncode_def store_def)
qed

section \<open>The decoder loop\<close>

lemma decode_body_copy:
  "block s \<noteq> 0 \<Longrightarrow>
   decode_body data s =
     (if byte s < length data \<and> decode s < length (dbuffer s)
      then Inr (False, s\<lparr>dbuffer := (dbuffer s)[decode s := data ! byte s],
                          decode := decode s + 1, byte := byte s + 1\<rparr>)
      else Inl OutOfBounds)"
  by (simp add: decode_body_def load_def store_def)

lemma decode_body_code_zero:
  "block s = 0 \<Longrightarrow> dcode s \<noteq> 0xff \<Longrightarrow>
   decode_body data s =
     (if byte s < length data \<and> decode s < length (dbuffer s)
      then Inr (data ! byte s = 0,
                s\<lparr>dbuffer := (dbuffer s)[decode s := 0], decode := decode s + 1,
                   block := data ! byte s, dcode := data ! byte s, byte := byte s + 1\<rparr>)
      else Inl OutOfBounds)"
  by (simp add: decode_body_def load_def store_def)

lemma decode_body_code:
  "block s = 0 \<Longrightarrow> dcode s = 0xff \<Longrightarrow>
   decode_body data s =
     (if byte s < length data
      then Inr (data ! byte s = 0,
                s\<lparr>block := data ! byte s, dcode := data ! byte s, byte := byte s + 1\<rparr>)
      else Inl OutOfBounds)"
  by (simp add: decode_body_def load_def store_def)

lemma decode_body_progress:
  assumes "decode_body data s = Inr (brk, s')"
  shows "byte s' = Suc (byte s)" and "decode s' \<le> Suc (decode s)"
    and "length (dbuffer s') = length (dbuffer s)"
  using assms
  by (cases "block s = 0"; cases "dcode s = 0xff";
      simp add: decode_body_copy decode_body_code_zero decode_body_code split: if_splits;
      auto)+

lemma decode_loop_done: "\<not> byte s < len \<Longrightarrow> decode_loop data len s = Inr s"
  by (subst decode_loop.simps) simp

lemma decode_loop_step:
  "byte s < len \<Longrightarrow>
   decode_loop data len s =
     (case decode_body data s of
        Inl f \<Rightarrow> Inl f
      | Inr (brk, s') \<Rightarrow>
          if brk then Inr s' else decode_loop data len (s'\<lparr>block := block s' - 1\<rparr>))"
  by (subst decode_loop.simps) simp

lemma decode_loop_count:
  "decode_loop data len s = Inr s' \<Longrightarrow> decode s' \<le> decode s + (len - byte s)"
proof (induction "len - byte s" arbitrary: s)
  case 0
  then show ?case by (simp add: decode_loop_done)
next
  case (Suc k)
  then have lt: "byte s < len" by simp
  with Suc.prems obtain brk t where body: "decode_body data s = Inr (brk, t)"
    by (auto simp: decode_loop_step split: sum.splits)
  note pr = decode_body_progress [OF body]
  show ?case
  proof (cases brk)
    case True
    with Suc.prems lt body pr show ?thesis
      by (simp add: decode_loop_step)
  next
    case False
    with Suc.prems lt body
    have r: "decode_loop data len (t\<lparr>block := block t - 1\<rparr>) = Inr s'"
      by (simp add: decode_loop_step)
    have "k = len - byte (t\<lparr>block := block t - 1\<rparr>)" using Suc.hyps(2) pr by simp
    from Suc.hyps(1) [OF this r] pr lt show ?thesis by simp
  qed
qed

lemma length_decoded: "length (decoded c k xs) \<le> length xs"
  by (induction xs arbitrary: c k) (auto simp: le_SucI)

lemma upd_take_drop:
  "i < length xs \<Longrightarrow>
   take (Suc i) (xs[i := v]) @ ys @ drop (Suc (i + length ys)) (xs[i := v])
     = take i xs @ (v # ys) @ drop (i + length (v # ys)) xs"
  by (simp add: take_Suc_conv_app_nth)

lemma decode_loop_decoded:
  assumes "byte s \<le> len" and "len \<le> length data"
    and "decode s + length (decoded (dcode s) (block s) (drop (byte s) (take len data)))
           \<le> length (dbuffer s)"
  shows "\<exists>s'. decode_loop data len s = Inr s' \<and>
           dbuffer s' = take (decode s) (dbuffer s)
              @ decoded (dcode s) (block s) (drop (byte s) (take len data))
              @ drop (decode s + length (decoded (dcode s) (block s)
                                           (drop (byte s) (take len data)))) (dbuffer s) \<and>
           decode s' = decode s
              + length (decoded (dcode s) (block s) (drop (byte s) (take len data)))"
  using assms
proof (induction "len - byte s" arbitrary: s)
  case 0
  then show ?case by (simp add: decode_loop_done)
next
  case (Suc k)
  define x where "x = data ! byte s"
  define rest where "rest = drop (Suc (byte s)) (take len data)"
  from Suc.hyps(2) have lt: "byte s < len" by simp
  then have ld: "byte s < length data" using Suc.prems(2) by simp
  have dr: "drop (byte s) (take len data) = x # rest"
    using lt Suc.prems(2) by (simp add: x_def rest_def Cons_nth_drop_Suc [symmetric])
  note cap = Suc.prems(3) [unfolded dr]
  have step: "\<exists>s'. decode_loop data len t = Inr s' \<and>
           dbuffer s' = take (decode t) (dbuffer t) @ decoded (dcode t) (block t) rest
              @ drop (decode t + length (decoded (dcode t) (block t) rest)) (dbuffer t) \<and>
           decode s' = decode t + length (decoded (dcode t) (block t) rest)"
    if "byte t = Suc (byte s)"
      and "decode t + length (decoded (dcode t) (block t) rest) \<le> length (dbuffer t)" for t
    using Suc.hyps(1) [of t] Suc.hyps(2) Suc.prems(2) lt that by (simp add: rest_def)
  show ?case
  proof (cases "block s = 0")
    case False
    with cap have dl: "decode s < length (dbuffer s)" by simp
    define t where "t = s\<lparr>dbuffer := (dbuffer s)[decode s := x], decode := decode s + 1,
                          byte := byte s + 1, block := block s - 1\<rparr>"
    have loop: "decode_loop data len s = decode_loop data len t"
      using False lt ld dl
      by (cases s) (simp add: decode_loop_step decode_body_copy t_def x_def)
    have "\<exists>s'. decode_loop data len t = Inr s' \<and>
           dbuffer s' = take (decode t) (dbuffer t) @ decoded (dcode t) (block t) rest
              @ drop (decode t + length (decoded (dcode t) (block t) rest)) (dbuffer t) \<and>
           decode s' = decode t + length (decoded (dcode t) (block t) rest)"
      using cap False by (intro step) (simp_all add: t_def)
    then show ?thesis
      using False dl upd_take_drop [OF dl, of x "decoded (dcode s) (block s - 1) rest"]
      by (simp add: loop dr t_def)
  next
    case b0: True
    show ?thesis
    proof (cases "x = 0")
      case True
      then show ?thesis
        using b0 lt ld cap
        by (cases "dcode s = 0xff")
           (simp_all add: decode_loop_step decode_body_code
              decode_body_code_zero dr x_def [symmetric] upd_conv_take_nth_drop)
    next
      case xn: False
      show ?thesis
      proof (cases "dcode s = 0xff")
        case True
        define t where "t = s\<lparr>block := x - 1, dcode := x, byte := byte s + 1\<rparr>"
        have loop: "decode_loop data len s = decode_loop data len t"
          using b0 True xn lt ld
          by (cases s) (simp add: decode_loop_step decode_body_code t_def x_def)
        have "\<exists>s'. decode_loop data len t = Inr s' \<and>
           dbuffer s' = take (decode t) (dbuffer t) @ decoded (dcode t) (block t) rest
              @ drop (decode t + length (decoded (dcode t) (block t) rest)) (dbuffer t) \<and>
           decode s' = decode t + length (decoded (dcode t) (block t) rest)"
          using cap b0 True xn by (intro step) (simp_all add: t_def)
        then show ?thesis
          using b0 True xn by (simp add: loop dr t_def)
      next
        case False
        with cap b0 have dl: "decode s < length (dbuffer s)" by simp
        define t where "t = s\<lparr>dbuffer := (dbuffer s)[decode s := 0], decode := decode s + 1,
                              block := x - 1, dcode := x, byte := byte s + 1\<rparr>"
        have loop: "decode_loop data len s = decode_loop data len t"
          using b0 False xn lt ld dl
          by (cases s) (simp add: decode_loop_step decode_body_code_zero t_def x_def)
        have "\<exists>s'. decode_loop data len t = Inr s' \<and>
           dbuffer s' = take (decode t) (dbuffer t) @ decoded (dcode t) (block t) rest
              @ drop (decode t + length (decoded (dcode t) (block t) rest)) (dbuffer t) \<and>
           decode s' = decode t + length (decoded (dcode t) (block t) rest)"
          using cap b0 False xn by (intro step) (simp_all add: t_def)
        then show ?thesis
          using b0 False xn dl upd_take_drop [OF dl, of 0 "decoded x (x - 1) rest"]
          by (simp add: loop dr t_def)
      qed
    qed
  qed
qed

section \<open>The two functions at the level of byte lists\<close>

lemma maxCobsEncodedLength_eq:
  "n + n div 254 + 1 < 2 ^ 64 \<Longrightarrow> maxCobsEncodedLength n = n + n div 254 + 1"
  by (simp add: maxCobsEncodedLength_def)

lemma cobsDecode_decoded:
  assumes "n \<le> length data" and "length (decoded 0xff 0 (take n data)) \<le> length out"
  shows "cobsDecode (Some data) n (Some out)
         = Inr (length (decoded 0xff 0 (take n data)),
                Some (decoded 0xff 0 (take n data)
                       @ drop (length (decoded 0xff 0 (take n data))) out))"
  using decode_loop_decoded [of "\<lparr>dbuffer = out, byte = 0, decode = 0, dcode = 0xff, block = 0\<rparr>"
      n data] assms
  by (auto simp: cobsDecode_def)

lemma drop_eq_nth:
  "length xs = length ys \<Longrightarrow> (\<forall>i \<ge> k. xs ! i = ys ! i) \<Longrightarrow> drop k xs = drop k ys"
  by (simp add: list_eq_iff_nth_eq)

section \<open>Arithmetic of the bound\<close>

lemma pred_div_254:
  assumes "0 < (L :: nat)"
  shows "(L - 1) div 254 = (if L mod 254 = 0 then L div 254 - 1 else L div 254)"
proof -
  define q r where "q = L div 254" and "r = L mod 254"
  have L: "L = 254 * q + r" and r: "r < 254" by (simp_all add: q_def r_def)
  show ?thesis
  proof (cases "r = 0")
    case True
    with L assms have q: "Suc (q - 1) = q" by simp
    from True L assms have "254 * (q - 1) \<le> L - 1" by linarith
    moreover from True L assms have "L - 1 < 254 * Suc (q - 1)" unfolding q by simp
    ultimately have "254 * (q - 1) \<le> L - 1" and "L - 1 < 254 * Suc (q - 1)" .
    then have "(L - 1) div 254 = q - 1" by (rule div_nat_eqI)
    with True show ?thesis by (simp add: q_def r_def)
  next
    case False
    with L r have "254 * q \<le> L - 1" and "L - 1 < 254 * Suc q" by simp_all
    then have "(L - 1) div 254 = q" by (rule div_nat_eqI)
    with False show ?thesis by (simp add: q_def r_def)
  qed
qed

lemma tight_arith:
  "(if L = 0 then 1 else L + 1 + (L - 1) div 254)
     = (if 0 < L \<and> L mod 254 = 0 then L + L div 254 else L + L div 254 + (1 :: nat))"
proof (cases "L = 0")
  case True
  then show ?thesis by simp
next
  case False
  then have pos: "0 < L" by simp
  show ?thesis
  proof (cases "L mod 254 = 0")
    case True
    then have "254 \<le> L" using pos by (metis mod_less neq0_conv not_less)
    then have "1 \<le> L div 254" by (simp add: div_greater_zero_iff Suc_leI)
    with pred_div_254 [OF pos] True False show ?thesis by simp
  next
    case m: False
    with pred_div_254 [OF pos] False show ?thesis by simp
  qed
qed

section \<open>Null pointers\<close>

text \<open>
  Claim C7. If the input pointer or the output pointer is null, \<open>cobsEncode\<close> and
  \<open>cobsDecode\<close> both return 0, for every length argument, and the output array
  (when there is one) is left exactly as it was: nothing is written.
\<close>

theorem null_pointer_returns_zero:
  assumes "data = None \<or> buf = None"
  shows "cobsEncode data len buf = Inr (0, buf) \<and> cobsDecode data len buf = Inr (0, buf)"
  using assms by (auto simp: cobsEncode_def cobsDecode_def)

theorem null_pointer_returns_zero_witness:
  "cobsEncode None 3 (Some [7, 8, 9]) = Inr (0, Some [7, 8, 9]) \<and>
   cobsDecode None 3 (Some [7, 8, 9]) = Inr (0, Some [7, 8, 9])"
  using null_pointer_returns_zero [of None "Some [7, 8, 9]" 3] by simp

section \<open>Delimiter truncation\<close>

text \<open>
  Claim C5. Decoding \<open>{0x02, 0xAA, 0x00, 0xFF}\<close> with length 4 must stop at the
  zero code byte, consume it without emitting anything for it, and deliver the
  decoded output \<open>{0xAA}\<close>, with nothing after the terminator processed.

  The code does stop there: the loop leaves through \<^verbatim>\<open>break\<close> with the input
  offset at 3, and the \<open>0xFF\<close> is never read. But its output is
  \<open>{0xAA, 0x00}\<close> with count 2, not \<open>{0xAA}\<close>: at the block boundary the
  body writes the implicit zero of the block it has finished before it reads
  the next code byte, and only then tests that byte for the delimiter. The other
  exit of the loop does not do this: \<open>{0xAA}\<close> encodes to \<open>{0x02, 0xAA}\<close>, and
  decoding these two bytes with length 2 returns 1 and the output \<open>{0xAA}\<close>;
  with the delimiter appended (length 3) the same frame decodes to two bytes.
\<close>

theorem delimiter_truncation_failing_input:
  "cobsDecode (Some [0x02, 0xAA, 0x00, 0xFF]) 4 (Some [0x55, 0x55, 0x55, 0x55])
     = Inr (2, Some [0xAA, 0x00, 0x55, 0x55]) \<and>
   decode_loop [0x02, 0xAA, 0x00, 0xFF] 4
       \<lparr>dbuffer = [0x55, 0x55, 0x55, 0x55], byte = 0, decode = 0, dcode = 0xff, block = 0\<rparr>
     = Inr \<lparr>dbuffer = [0xAA, 0x00, 0x55, 0x55], byte = 3, decode = 2, dcode = 0, block = 0\<rparr> \<and>
   cobsEncode (Some [0xAA]) 1 (Some [0x55, 0x55, 0x55]) = Inr (2, Some [0x02, 0xAA, 0x55]) \<and>
   cobsDecode (Some [0x02, 0xAA]) 2 (Some [0x55, 0x55, 0x55, 0x55])
     = Inr (1, Some [0xAA, 0x55, 0x55, 0x55]) \<and>
   cobsDecode (Some [0x02, 0xAA, 0x00]) 3 (Some [0x55, 0x55, 0x55, 0x55])
     = Inr (2, Some [0xAA, 0x00, 0x55, 0x55])"
  by code_simp

section \<open>Round trip\<close>

text \<open>
  Claim C1. For every byte sequence \<open>d\<close> and every output array \<open>out\<close> that can
  hold \<open>length d\<close> bytes: the encoder, run on \<open>d\<close> into any array \<open>buf\<close>,
  returns a count \<open>n\<close> and an encoded array \<open>enc\<close>, and the decoder run on
  \<open>enc\<close> with exactly the length \<open>n\<close> returns \<open>length d\<close> and leaves \<open>d\<close> in
  the first \<open>length d\<close> bytes of \<open>out\<close> (the rest of \<open>out\<close> is untouched). The
  only other outcome is that the encoder ran past the end of \<open>buf\<close>, and that
  happens only when \<open>buf\<close> is shorter than \<open>length d + length d div 254 + 1\<close>,
  which the contract of the encoder excludes.
\<close>

theorem roundtrip:
  assumes "length d \<le> length out"
  shows "(\<exists>n enc. cobsEncode (Some d) (length d) (Some buf) = Inr (n, Some enc) \<and>
            cobsDecode (Some enc) n (Some out)
              = Inr (length d, Some (d @ drop (length d) out))) \<or>
         (cobsEncode (Some d) (length d) (Some buf) = Inl OutOfBounds \<and>
            length buf < length d + length d div 254 + 1)"
proof (cases "cobsEncode (Some d) (length d) (Some buf)")
  case (Inl f)
  then have "\<not> length d + length d div 254 + 1 \<le> length buf"
    using cobsEncode_total [of "length d" d buf] by auto
  with Inl show ?thesis by (cases f) simp
next
  case (Inr v)
  obtain n r where v: "v = (n, r)" by (cases v)
  from cobsEncode_count(5) [OF Inr [unfolded v]] obtain enc
    where r: "r = Some enc" and len: "length enc = length buf" by blast
  note e = Inr [unfolded v r]
  have dec: "decoded 0xff 0 (take n enc) = d" using cobsEncode_decoded [OF e] by simp
  have "n \<le> length enc" using cobsEncode_count(2) [OF e] len by simp
  from cobsDecode_decoded [OF this, of out] dec assms
  have "cobsDecode (Some enc) n (Some out) = Inr (length d, Some (d @ drop (length d) out))"
    by simp
  with e show ?thesis by blast
qed

theorem roundtrip_witness:
  "cobsEncode (Some [0x11, 0x00, 0x22]) 3 (Some [0, 0, 0, 0, 0]) = Inr (4, Some [2, 0x11, 2, 0x22, 0]) \<and>
   cobsDecode (Some [2, 0x11, 2, 0x22, 0]) 4 (Some [9, 9, 9, 9]) = Inr (3, Some [0x11, 0x00, 0x22, 9])"
proof -
  have e: "cobsEncode (Some [0x11, 0x00, 0x22]) (length [0x11, 0x00, 0x22 :: u8]) (Some [0, 0, 0, 0, 0])
           = Inr (4, Some [2, 0x11, 2, 0x22, 0])"
    by code_simp
  from roundtrip [of "[0x11, 0x00, 0x22]" "[9, 9, 9, 9]" "[0, 0, 0, 0, 0]"]
  have "cobsDecode (Some [2, 0x11, 2, 0x22, 0]) 4 (Some [9, 9, 9, 9])
        = Inr (length [0x11, 0x00, 0x22 :: u8], Some ([0x11, 0x00, 0x22] @ drop (length [0x11, 0x00, 0x22 :: u8]) [9, 9, 9, 9]))"
    unfolding e by auto
  with e show ?thesis by (simp add: numeral_3_eq_3)
qed

section \<open>Properties of the encoded output\<close>

text \<open>
  Claim C2. Whenever the encoder returns, on a byte sequence \<open>d\<close> with non-null
  pointers, the count \<open>n\<close> it returns lies inside the output array and none of
  the first \<open>n\<close> bytes of the output is zero.
\<close>

theorem no_zero_invariant:
  assumes "cobsEncode (Some d) (length d) (Some buf) = Inr (n, Some enc)"
  shows "n \<le> length enc \<and> 0 \<notin> set (take n enc) \<and> (\<forall>i<n. enc ! i \<noteq> 0)"
proof -
  from cobsEncode_count(2,5) [OF assms] have n: "n \<le> length enc" by auto
  have nz: "\<forall>i<n. enc ! i \<noteq> 0" using cobsEncode_no_zero [OF assms] by blast
  have "0 \<notin> set (take n enc)"
  proof
    assume "0 \<in> set (take n enc)"
    then obtain i where "i < length (take n enc)" "take n enc ! i = 0"
      by (auto simp: in_set_conv_nth)
    with nz show False by simp
  qed
  with n nz show ?thesis by simp
qed

theorem no_zero_invariant_witness:
  "cobsEncode (Some [0x00, 0x05, 0x00]) 3 (Some [0, 0, 0, 0, 0]) = Inr (4, Some [1, 2, 5, 1, 0]) \<and>
   0 \<notin> set (take 4 [1, 2, 5, 1, 0 :: u8])"
proof -
  have e: "cobsEncode (Some [0x00, 0x05, 0x00]) (length [0x00, 0x05, 0x00 :: u8])
             (Some [0, 0, 0, 0, 0]) = Inr (4, Some [1, 2, 5, 1, 0])"
    by code_simp
  from no_zero_invariant [OF e] e show ?thesis by (simp add: numeral_3_eq_3)
qed

text \<open>
  Claim C3. Whenever the encoder returns on a byte sequence of length \<open>L\<close>, the
  count it returns is at most \<open>L + L div 254 + 1\<close>. Whenever that sum is
  representable in \<^verbatim>\<open>size_t\<close>, it is exactly the value
  \<open>maxCobsEncodedLength L\<close> computes, so the count is at most
  \<open>maxCobsEncodedLength L\<close>.
\<close>

theorem encoded_length_bound:
  assumes "cobsEncode (Some d) (length d) (Some buf) = Inr (n, enc)"
  shows "n \<le> length d + length d div 254 + 1 \<and>
         (length d + length d div 254 + 1 < 2 ^ 64 \<longrightarrow>
            maxCobsEncodedLength (length d) = length d + length d div 254 + 1 \<and>
            n \<le> maxCobsEncodedLength (length d))"
proof -
  have "n \<le> (if length d = 0 then 1 else length d + 1 + (length d - 1) div 254)"
    using cobsEncode_count(4) [OF assms] .
  then have "n \<le> length d + length d div 254 + 1"
    by (simp split: if_splits)
  then show ?thesis by (simp add: maxCobsEncodedLength_eq)
qed

theorem encoded_length_bound_witness:
  "cobsEncode (Some [0x00, 0x05, 0x00]) 3 (Some [0, 0, 0, 0, 0]) = Inr (4, Some [1, 2, 5, 1, 0]) \<and>
   maxCobsEncodedLength 3 = 4 \<and> (4 :: nat) \<le> maxCobsEncodedLength 3"
proof -
  have e: "cobsEncode (Some [0x00, 0x05, 0x00]) (length [0x00, 0x05, 0x00 :: u8])
             (Some [0, 0, 0, 0, 0]) = Inr (4, Some [1, 2, 5, 1, 0])"
    by code_simp
  have l: "length [0x00, 0x05, 0x00 :: u8] = 3" by simp
  have r: "(3 :: nat) + 3 div 254 + 1 < 2 ^ 64" by simp
  from encoded_length_bound [OF e, unfolded l]
  have "maxCobsEncodedLength 3 = 3 + 3 div 254 + 1 \<and> (4 :: nat) \<le> maxCobsEncodedLength 3"
    using r by blast
  then have "maxCobsEncodedLength 3 = 4 \<and> (4 :: nat) \<le> maxCobsEncodedLength 3" by simp
  with e [unfolded l] show ?thesis by simp
qed

text \<open>
  Claim C10. With non-null input and output pointers the encoder never returns 0,
  whatever the length argument: a count it returns is at least 1. So a 0 from
  \<open>cobsEncode\<close> can only come from the null-pointer test. The decoder is
  different: it returns 0 on the valid one-byte encoding \<open>{0x01}\<close> of the
  empty message, with non-null pointers and without writing anything.
\<close>

theorem encode_count_positive:
  assumes "data \<noteq> None" and "buf \<noteq> None" and "cobsEncode data len buf = Inr (n, enc)"
  shows "1 \<le> n \<and> cobsDecode (Some [0x01]) 1 buf = Inr (0, buf)"
proof -
  from assms(1,2) obtain d b where db: "data = Some d" "buf = Some b" by auto
  have "1 \<le> n" using cobsEncode_count(1) [OF assms(3) [unfolded db]] .
  moreover have "cobsDecode (Some [0x01]) 1 (Some b) = Inr (0, Some b)"
    by (simp add: cobsDecode_def decode_loop.simps decode_body_def load_def)
  ultimately show ?thesis by (simp add: db)
qed

theorem encode_count_positive_witness:
  "cobsEncode (Some []) 0 (Some [7, 7]) = Inr (1, Some [1, 7]) \<and> (1 :: nat) \<le> 1 \<and>
   cobsDecode (Some [0x01]) 1 (Some [7, 7]) = Inr (0, Some [7, 7])"
proof -
  have e: "cobsEncode (Some []) 0 (Some [7, 7]) = Inr (1, Some [1, 7])"
    by code_simp
  from encode_count_positive [OF _ _ e] e show ?thesis by simp
qed

section \<open>The decoder never expands\<close>

text \<open>
  Claim C8. For every input array, well-formed encoding or not, and every length
  argument \<open>n\<close>, the decoder returns a count of at most \<open>n\<close>. The only other
  outcome is an access outside an array, and that needs an input array shorter
  than \<open>n\<close> or an output array shorter than \<open>n\<close>.
\<close>

theorem decode_never_expands:
  "(\<exists>cnt r. cobsDecode (Some data) n (Some out) = Inr (cnt, Some r) \<and> cnt \<le> n) \<or>
   (cobsDecode (Some data) n (Some out) = Inl OutOfBounds \<and> (length data < n \<or> length out < n))"
proof (cases "decode_loop data n \<lparr>dbuffer = out, byte = 0, decode = 0, dcode = 0xff, block = 0\<rparr>")
  case (Inl f)
  have "length data < n \<or> length out < n"
  proof (rule ccontr)
    assume "\<not> (length data < n \<or> length out < n)"
    then have "n \<le> length data" and "length (decoded 0xff 0 (take n data)) \<le> length out"
      using length_decoded [of "0xff" 0 "take n data"] by simp_all
    from cobsDecode_decoded [OF this] Inl show False by (simp add: cobsDecode_def)
  qed
  with Inl show ?thesis by (cases f) (simp add: cobsDecode_def)
next
  case (Inr s)
  from decode_loop_count [OF Inr] have "decode s \<le> n" by simp
  with Inr show ?thesis by (simp add: cobsDecode_def)
qed

section \<open>Indices the encoder writes\<close>

text \<open>
  Claim C9. Let \<open>B = L + L div 254 + 1\<close> for an input \<open>d\<close> of length \<open>L\<close>
  (the value of \<open>maxCobsEncodedLength L\<close> when it is representable). With an
  output array of at least \<open>B\<close> bytes the encoder makes no access outside the
  array, and the bytes from index \<open>B\<close> on are left as they were. After the loop
  (state \<open>s\<close>) the final statement \<^verbatim>\<open>*codep = code\<close> writes \<open>code s\<close> at
  \<open>codep s\<close>, and the function returns \<open>encode s\<close>. Exactly when the run of
  non-zero bytes ending the input is a positive multiple of 254, this final
  write stores \<open>0x01\<close> at the index \<open>encode s\<close>, the returned count, which is
  then below \<open>B\<close>; for all other inputs it goes to an index below the count and
  the bytes from the count on are left as they were.
\<close>

theorem encoder_write_bound:
  assumes "length d + length d div 254 + 1 \<le> length buf"
  shows "\<exists>s enc. encode_loop d 0 (length d) \<lparr>buffer = buf, encode = 1, codep = 0, code = 1\<rparr> = Inr s \<and>
           codep s < length buf \<and> enc = (buffer s)[codep s := code s] \<and>
           cobsEncode (Some d) (length d) (Some buf) = Inr (encode s, Some enc) \<and>
           length enc = length buf \<and>
           drop (length d + length d div 254 + 1) enc = drop (length d + length d div 254 + 1) buf \<and>
           (if 0 < nz_run d \<and> nz_run d mod 254 = 0
            then codep s = encode s \<and> code s = 0x01 \<and>
                 encode s < length d + length d div 254 + 1 \<and> enc ! encode s = 0x01
            else codep s < encode s \<and> encode s \<le> length d + length d div 254 + 1 \<and>
                 drop (encode s) enc = drop (encode s) buf) \<and>
           (length d + length d div 254 + 1 < 2 ^ 64 \<longrightarrow>
              maxCobsEncodedLength (length d) = length d + length d div 254 + 1)"
proof -
  from cobsEncode_total [OF order_refl assms] obtain cnt enc
    where e: "cobsEncode (Some d) (length d) (Some buf) = Inr (cnt, Some enc)" by auto
  from e obtain s
    where loop: "encode_loop d 0 (length d) \<lparr>buffer = buf, encode = 1, codep = 0, code = 1\<rparr> = Inr s"
      and pl: "codep s < length (buffer s)" and cnt: "cnt = encode s"
      and enc: "enc = (buffer s)[codep s := code s]"
      and inv: "enc_loop_inv d buf (if length d = 0 then 1 else length d + 1 + (length d - 1) div 254)
                  (length d + length d div 254 + 1) (length d) 0 s"
    by (auto elim: cobsEncode_Inr)
  from inv have fr: "\<forall>i \<ge> encode s. buffer s ! i = buf ! i"
    and len: "length (buffer s) = length buf"
    by (simp_all add: enc_loop_inv_def)
  from encode_loop_final [OF inv]
  have fin: "if 0 < nz_run d \<and> nz_run d mod 254 = 0
         then codep s = encode s \<and> code s = 1 \<and> encode s < length d + length d div 254 + 1
         else codep s < encode s \<and> encode s \<le> length d + length d div 254 + 1"
    by simp
  have l: "length enc = length buf" using enc len by simp
  have "\<forall>i \<ge> length d + length d div 254 + 1. enc ! i = buf ! i"
    using fin fr enc by (auto split: if_splits)
  then have tail: "drop (length d + length d div 254 + 1) enc
                   = drop (length d + length d div 254 + 1) buf"
    using l by (intro drop_eq_nth)
  have "if 0 < nz_run d \<and> nz_run d mod 254 = 0
            then codep s = encode s \<and> code s = 0x01 \<and>
                 encode s < length d + length d div 254 + 1 \<and> enc ! encode s = 0x01
            else codep s < encode s \<and> encode s \<le> length d + length d div 254 + 1 \<and>
                 drop (encode s) enc = drop (encode s) buf"
  proof (cases "0 < nz_run d \<and> nz_run d mod 254 = 0")
    case True
    with fin pl enc show ?thesis by auto
  next
    case False
    with fin have p: "codep s < encode s" and b: "encode s \<le> length d + length d div 254 + 1"
      by simp_all
    from p fr enc have "\<forall>i \<ge> encode s. enc ! i = buf ! i" by auto
    with l have "drop (encode s) enc = drop (encode s) buf" by (intro drop_eq_nth)
    with False p b show ?thesis by simp
  qed
  with tail l loop e cnt enc pl len show ?thesis
    by (auto simp: maxCobsEncodedLength_eq)
qed

theorem encoder_write_bound_witness:
  "cobsEncode (Some (replicate 254 0x01)) 254 (Some (replicate 256 0))
     = Inr (255, Some (0xff # replicate 254 0x01 @ [0x01])) \<and>
   (0xff # replicate 254 0x01 @ [0x01 :: u8]) ! 255 = 0x01 \<and>
   cobsEncode (Some (replicate 254 0x01)) 254 (Some (replicate 255 0)) = Inl OutOfBounds"
proof -
  let ?d = "replicate 254 (0x01 :: u8)"
  have l: "length ?d = 254" by simp
  have e: "cobsEncode (Some ?d) 254 (Some (replicate 256 0))
           = Inr (255, Some (0xff # replicate 254 0x01 @ [0x01]))"
    by code_simp
  have o: "cobsEncode (Some ?d) 254 (Some (replicate 255 0)) = Inl OutOfBounds"
    by code_simp
  have r: "nz_run ?d = 254" by code_simp
  have cap: "length ?d + length ?d div 254 + 1 \<le> length (replicate 256 (0 :: u8))" by simp
  from encoder_write_bound [OF cap] obtain s :: enc_state and enc
    where c: "cobsEncode (Some ?d) (length ?d) (Some (replicate 256 0)) = Inr (encode s, Some enc)"
      and f: "if 0 < nz_run ?d \<and> nz_run ?d mod 254 = 0
            then codep s = encode s \<and> code s = 0x01 \<and>
                 encode s < length ?d + length ?d div 254 + 1 \<and> enc ! encode s = 0x01
            else codep s < encode s \<and> encode s \<le> length ?d + length ?d div 254 + 1 \<and>
                 drop (encode s) enc = drop (encode s) (replicate 256 0)"
    by blast
  from f have w: "enc ! encode s = 0x01"
    unfolding r by auto
  from c [unfolded l e] have "encode s = 255"
    and "enc = 0xff # replicate 254 0x01 @ [0x01]" by simp_all
  with w have "(0xff # replicate 254 0x01 @ [0x01 :: u8]) ! 255 = 0x01" by simp
  with e o show ?thesis by simp
qed

section \<open>Tightness of the bound\<close>

text \<open>
  Claim C6, as the spec states it: for every length \<open>L\<close> some input of length
  \<open>L\<close> has an encoded length equal to \<open>maxCobsEncodedLength L\<close>, the worst
  case being all-nonzero input whose length is a multiple of 254. This fails at
  \<open>L = 254\<close>: the bound is 256, the all-nonzero input encodes to 255 bytes, and
  no input of 254 bytes encodes to 256.
\<close>

theorem bound_tightness_counterexample:
  "maxCobsEncodedLength 254 = 256 \<and>
   cobsEncode (Some (replicate 254 0x01)) 254 (Some (replicate 256 0))
     = Inr (255, Some (0xff # replicate 254 0x01 @ [0x01])) \<and>
   \<not> (\<exists>d buf n enc. length d = 254 \<and>
          cobsEncode (Some d) (length d) (Some buf) = Inr (n, enc) \<and>
          n = maxCobsEncodedLength 254)"
proof -
  have m: "maxCobsEncodedLength 254 = 256" by (simp add: maxCobsEncodedLength_def)
  have e: "cobsEncode (Some (replicate 254 0x01)) 254 (Some (replicate 256 0))
     = Inr (255, Some (0xff # replicate 254 0x01 @ [0x01]))"
    by code_simp
  have "n \<noteq> 256" if "length d = 254"
    and "cobsEncode (Some d) (length d) (Some buf) = Inr (n, enc)" for d buf n enc
    using cobsEncode_count(4) [OF that(2)] that(1) by simp
  with m e show ?thesis by auto
qed

text \<open>
  Claim C6, amended. For every length \<open>L\<close> whose bound is representable, the
  all-nonzero input of length \<open>L\<close> has encoded length \<open>maxCobsEncodedLength L\<close>
  when \<open>L\<close> is zero or not a multiple of 254, and
  \<open>maxCobsEncodedLength L - 1\<close> when \<open>L\<close> is a positive multiple of 254; in
  that case no input of length \<open>L\<close> reaches the bound.
\<close>

theorem bound_tightness:
  assumes cap: "L + L div 254 + 1 \<le> length buf" and rep: "L + L div 254 + 1 < 2 ^ 64"
  shows "(\<exists>d n enc. length d = L \<and> 0 \<notin> set d \<and>
            cobsEncode (Some d) (length d) (Some buf) = Inr (n, Some enc) \<and>
            n = (if 0 < L \<and> L mod 254 = 0 then maxCobsEncodedLength L - 1
                 else maxCobsEncodedLength L)) \<and>
         (0 < L \<and> L mod 254 = 0 \<longrightarrow>
            (\<forall>d b n r. length d = L \<and> cobsEncode (Some d) (length d) (Some b) = Inr (n, r)
               \<longrightarrow> n < maxCobsEncodedLength L))"
proof -
  let ?d = "replicate L (0x01 :: u8)"
  let ?N = "if L = 0 then 1 else L + 1 + (L - 1) div 254"
  have m: "maxCobsEncodedLength L = L + L div 254 + 1"
    using rep by (rule maxCobsEncodedLength_eq)
  have N: "?N = (if 0 < L \<and> L mod 254 = 0 then maxCobsEncodedLength L - 1
                 else maxCobsEncodedLength L)"
    unfolding m tight_arith by simp
  from cobsEncode_total [of L ?d buf] cap obtain n enc
    where e: "cobsEncode (Some ?d) L (Some buf) = Inr (n, Some enc)" by auto
  from e obtain s
    where loop: "encode_loop ?d 0 L \<lparr>buffer = buf, encode = 1, codep = 0, code = 1\<rparr> = Inr s"
      and n: "n = encode s"
    by (auto elim: cobsEncode_Inr)
  have "n = enc_count_bound \<lparr>buffer = buf, encode = 1, codep = 0, code = 1\<rparr> L"
    unfolding n by (rule encode_loop_count_nonzero [OF loop]) (simp_all add: enc_ok_def)
  also have "\<dots> = ?N" by (simp add: enc_count_bound_def)
  finally have "n = ?N" .
  with e have ex: "\<exists>d n enc. length d = L \<and> 0 \<notin> set d \<and>
            cobsEncode (Some d) (length d) (Some buf) = Inr (n, Some enc) \<and>
            n = (if 0 < L \<and> L mod 254 = 0 then maxCobsEncodedLength L - 1
                 else maxCobsEncodedLength L)"
    unfolding N by (intro exI [of _ ?d] exI [of _ n] exI [of _ enc]) simp
  have up: "n' < maxCobsEncodedLength L"
    if c: "0 < L \<and> L mod 254 = 0" and l: "length d = L"
      and r: "cobsEncode (Some d) (length d) (Some b) = Inr (n', r)" for d b n' r
  proof -
    have "n' \<le> ?N" using cobsEncode_count(4) [OF r] unfolding l .
    also have "?N = maxCobsEncodedLength L - 1" unfolding N using c by simp
    finally show ?thesis unfolding m by simp
  qed
  show ?thesis
  proof (intro conjI impI allI)
    show "\<exists>d n enc. length d = L \<and> 0 \<notin> set d \<and>
            cobsEncode (Some d) (length d) (Some buf) = Inr (n, Some enc) \<and>
            n = (if 0 < L \<and> L mod 254 = 0 then maxCobsEncodedLength L - 1
                 else maxCobsEncodedLength L)"
      by (rule ex)
  next
    fix d b n r
    assume c: "0 < L \<and> L mod 254 = 0"
      and a: "length d = L \<and> cobsEncode (Some d) (length d) (Some b) = Inr (n, r)"
    from up [OF c conjunct1 [OF a] conjunct2 [OF a]]
    show "n < maxCobsEncodedLength L" .
  qed
qed

theorem bound_tightness_witness:
  "(\<exists>d n enc. length d = 254 \<and> 0 \<notin> set d \<and>
      cobsEncode (Some d) (length d) (Some (replicate 256 0)) = Inr (n, Some enc) \<and> n = 255) \<and>
   cobsEncode (Some (replicate 254 0x01)) 254 (Some (replicate 256 0))
     = Inr (255, Some (0xff # replicate 254 0x01 @ [0x01])) \<and>
   (255 :: nat) < maxCobsEncodedLength 254"
proof -
  have m: "maxCobsEncodedLength 254 = 256" by (simp add: maxCobsEncodedLength_def)
  have e: "cobsEncode (Some (replicate 254 0x01)) (length (replicate 254 (0x01 :: u8)))
             (Some (replicate 256 0))
     = Inr (255, Some (0xff # replicate 254 0x01 @ [0x01]))"
    by code_simp
  have cap: "254 + 254 div 254 + 1 \<le> length (replicate 256 (0 :: u8))"
    and rep: "254 + 254 div 254 + 1 < (2 :: nat) ^ 64" by simp_all
  note t = bound_tightness [OF cap rep, unfolded m]
  from t have "\<exists>d n enc. length d = 254 \<and> 0 \<notin> set d \<and>
      cobsEncode (Some d) (length d) (Some (replicate 256 0)) = Inr (n, Some enc) \<and> n = 255"
    by simp
  moreover from t e have "(255 :: nat) < 256" by simp
  ultimately show ?thesis using e m by simp
qed

section \<open>Closing a block\<close>

text \<open>
  Claim C4, as the spec states it: on closing a block the encoder reserves a new
  code slot, except when the block is zero-terminated and ends the input. The
  code does the opposite on both counts. On the input \<open>{0x00}\<close> the block
  closed by the final zero gets a new slot: \<open>encode\<close> moves to 2, past
  \<open>codep = 1\<close>, and the result is \<open>{0x01, 0x01}\<close>. On 254 non-zero bytes the
  block closed by the last byte (code \<open>0xFF\<close>, not zero-terminated) gets no
  new slot: the loop ends with \<open>encode = codep = 255\<close>.
\<close>

theorem block_closing_rule_counterexample:
  "encode_body 0x00 0 \<lparr>buffer = [0, 0], encode = 1, codep = 0, code = 1\<rparr>
     = Inr \<lparr>buffer = [1, 0], encode = 2, codep = 1, code = 1\<rparr> \<and>
   cobsEncode (Some [0x00]) 1 (Some [0, 0]) = Inr (2, Some [1, 1]) \<and>
   encode_loop (replicate 254 0x01) 0 254
       \<lparr>buffer = replicate 256 0, encode = 1, codep = 0, code = 1\<rparr>
     = Inr \<lparr>buffer = 0xff # replicate 254 0x01 @ [0], encode = 255, codep = 255, code = 1\<rparr>"
  by code_simp

text \<open>
  Claim C4, amended. Whenever an iteration closes a block (the input byte is
  zero, or the running code reaches \<open>0xFF\<close> on a non-zero byte), it writes the
  block's code into the reserved code slot, resets the running code to 1 and
  moves \<open>codep\<close> to the current write position; it then reserves this new
  slot (advances \<open>encode\<close> past it), except when the block was closed by the
  code reaching \<open>0xFF\<close> on a non-zero byte that is the last byte of the input.
\<close>

theorem block_closing_rule:
  assumes "encode_body b len s = Inr s'" and "b = 0 \<or> code s + 1 = 0xff"
  shows "buffer s' ! codep s = (if b = 0 then code s else 0xff) \<and>
         code s' = 1 \<and>
         codep s' = (if b = 0 then encode s else encode s + 1) \<and>
         encode s' = (if b \<noteq> 0 \<and> len = 0 then codep s' else codep s' + 1)"
proof (cases "b = 0")
  case True
  with assms(1) show ?thesis
    by (auto simp: encode_body_zero split: if_splits)
next
  case False
  with assms(2) have "code s + 1 = 0xff" by simp
  with False assms(1) show ?thesis
    by (auto simp: encode_body_full split: if_splits)
qed

theorem block_closing_rule_witness:
  "encode_body 0x00 0 \<lparr>buffer = [0, 0x11, 0, 0], encode = 2, codep = 0, code = 2\<rparr>
     = Inr \<lparr>buffer = [2, 0x11, 0, 0], encode = 3, codep = 2, code = 1\<rparr> \<and>
   [2, 0x11, 0, 0 :: u8] ! 0 = 2"
proof -
  have e: "encode_body 0x00 0 \<lparr>buffer = [0, 0x11, 0, 0], encode = 2, codep = 0, code = 2\<rparr>
     = Inr \<lparr>buffer = [2, 0x11, 0, 0], encode = 3, codep = 2, code = 1\<rparr>"
    by code_simp
  from block_closing_rule [OF e] e show ?thesis by simp
qed

end
